theory Spec2Isabelle
  imports Main "HOL-Library.AList"
begin

section \<open>JavaScript values\<close>

text \<open>
  The transport of \<^verbatim>\<open>n8n-winston-logger.js\<close> receives winston \<^emph>\<open>info\<close> objects and turns
  their properties into strings. It never computes with a property value, so a value is given
  by what the conversions read from it:
  \<^item> a number by the string that \<^verbatim>\<open>Number.prototype.toString\<close> yields for it: \<open>42\<close> is
    \<open>JNum ''42''\<close>, \<open>2 ** 60\<close> is \<open>JNum ''1152921504606847000''\<close>, \<open>1.5\<close> is \<open>JNum ''1.5''\<close>, and
    there are \<open>JNum ''NaN''\<close>, \<open>JNum ''Infinity''\<close> and \<open>JNum ''-Infinity''\<close>;
  \<^item> a BigInt by its integer;
  \<^item> a string by its UTF-8 bytes;
  \<^item> an array by its elements, a plain object by the list of its own enumerable string-keyed
    properties in creation order, with pairwise distinct keys;
  \<^item> \<open>JCyclic\<close> is a plain object that reaches itself through its properties.

  Functions, symbols as values, and objects with a \<^verbatim>\<open>toJSON\<close> or \<^verbatim>\<open>toString\<close> of their own
  have no value here.
\<close>

datatype js_error = TypeError

datatype jsval =
    JUndefined
  | JNull
  | JBool bool
  | JNum string
  | JBigInt int
  | JStr string
  | JArr "jsval list"
  | JObj "(string \<times> jsval) list"
  | JCyclic

type_synonym jsobj = "(string \<times> jsval) list"

subsection \<open>Strings\<close>

definition digit_char :: "nat \<Rightarrow> char" where
  "digit_char d = ''0123456789'' ! d"

fun nat_digits :: "nat \<Rightarrow> string" where
  "nat_digits n =
     (if n < 10 then [digit_char n] else nat_digits (n div 10) @ [digit_char (n mod 10)])"

declare nat_digits.simps [simp del]

definition bigint_to_string :: "int \<Rightarrow> string" where
  "bigint_to_string i = (if i < 0 then CHR ''-'' # nat_digits (nat (- i)) else nat_digits (nat i))"

definition upper_char :: "char \<Rightarrow> char" where
  "upper_char c =
     (case map_of (zip ''abcdefghijklmnopqrstuvwxyz'' ''ABCDEFGHIJKLMNOPQRSTUVWXYZ'') c of
        Some u \<Rightarrow> u
      | None \<Rightarrow> c)"

definition is_ascii :: "char \<Rightarrow> bool" where
  "is_ascii c = ((of_char c :: nat) < 128)"

text \<open>
  \<^verbatim>\<open>toUpperCase\<close> maps the letters \<open>a\<close> to \<open>z\<close> of an ASCII string to \<open>A\<close> to \<open>Z\<close> and leaves its
  other characters alone. On a string with other characters it follows the Unicode case
  mappings, which are taken as the parameter \<open>unicode\<close>.
\<close>

definition toUpperCase :: "(string \<Rightarrow> string) \<Rightarrow> string \<Rightarrow> string" where
  "toUpperCase unicode s = (if list_all is_ascii s then map upper_char s else unicode s)"

fun join :: "string \<Rightarrow> string list \<Rightarrow> string" where
  "join sep [] = []"
| "join sep [x] = x"
| "join sep (x # y # ys) = x @ sep @ join sep (y # ys)"

subsection \<open>Property order\<close>

text \<open>
  \<^verbatim>\<open>Object.entries\<close>, object spread and \<^verbatim>\<open>JSON.stringify\<close> visit the own properties with the
  array-index keys first, in ascending numeric order, and then the other string keys in
  creation order. An array index is the canonical decimal form of an integer below \<open>2^32 - 1\<close>.
\<close>

definition is_digit :: "char \<Rightarrow> bool" where
  "is_digit c = (c \<in> set ''0123456789'')"

definition digit_val :: "char \<Rightarrow> int" where
  "digit_val c = (case map_of (zip ''0123456789'' [0, 1, 2, 3, 4, 5, 6, 7, 8, 9]) c of
                    Some d \<Rightarrow> d | None \<Rightarrow> 0)"

definition string_to_int :: "string \<Rightarrow> int" where
  "string_to_int s = fold (\<lambda>c n. 10 * n + digit_val c) s 0"

definition array_index :: "string \<Rightarrow> int option" where
  "array_index k =
     (if k \<noteq> [] \<and> list_all is_digit k \<and> (k = ''0'' \<or> hd k \<noteq> CHR ''0'')
         \<and> string_to_int k < 4294967295
      then Some (string_to_int k) else None)"

definition index_rank :: "string \<times> 'a \<Rightarrow> int" where
  "index_rank p = (case array_index (fst p) of Some n \<Rightarrow> n | None \<Rightarrow> 0)"

definition own_entries :: "(string \<times> 'a) list \<Rightarrow> (string \<times> 'a) list" where
  "own_entries ps =
     sort_key index_rank (filter (\<lambda>p. array_index (fst p) \<noteq> None) ps)
       @ filter (\<lambda>p. array_index (fst p) = None) ps"

definition get_prop :: "jsobj \<Rightarrow> string \<Rightarrow> jsval" where
  "get_prop obj k = (case map_of obj k of Some v \<Rightarrow> v | None \<Rightarrow> JUndefined)"

text \<open>
  Each property definition of an object literal or of a spread is \<^const>\<open>AList.update\<close>: an
  existing key keeps its place and takes the new value, a new key is appended.
\<close>

definition assign_all :: "jsobj \<Rightarrow> jsobj \<Rightarrow> jsobj" where
  "assign_all source target = fold (\<lambda>p. AList.update (fst p) (snd p)) (own_entries source) target"

subsection \<open>\<^verbatim>\<open>String(value)\<close> and \<^verbatim>\<open>JSON.stringify(value)\<close>\<close>

definition hex_char :: "nat \<Rightarrow> char" where
  "hex_char d = ''0123456789abcdef'' ! d"

definition quote_char :: "char \<Rightarrow> string" where
  "quote_char c =
     (if c = CHR 0x22 then [CHR 0x5C, CHR 0x22]
      else if c = CHR 0x5C then [CHR 0x5C, CHR 0x5C]
      else if c = CHR 0x08 then [CHR 0x5C, CHR ''b'']
      else if c = CHR 0x0C then [CHR 0x5C, CHR ''f'']
      else if c = CHR 0x0A then [CHR 0x5C, CHR ''n'']
      else if c = CHR 0x0D then [CHR 0x5C, CHR ''r'']
      else if c = CHR 0x09 then [CHR 0x5C, CHR ''t'']
      else if (of_char c :: nat) < 32
        then [CHR 0x5C, CHR ''u'', CHR ''0'', CHR ''0'',
              hex_char ((of_char c :: nat) div 16), hex_char ((of_char c :: nat) mod 16)]
      else [c])"

definition quote_string :: "string \<Rightarrow> string" where
  "quote_string s = [CHR 0x22] @ concat (map quote_char s) @ [CHR 0x22]"

fun collect :: "(js_error + 'a) list \<Rightarrow> js_error + 'a list" where
  \<comment> \<open>the results of the parts, up to the first one that throws\<close>
  "collect [] = Inr []"
| "collect (Inl e # rs) = Inl e"
| "collect (Inr x # rs) = (case collect rs of Inl e \<Rightarrow> Inl e | Inr xs \<Rightarrow> Inr (x # xs))"

definition json_number :: "string \<Rightarrow> string" where
  \<comment> \<open>a number that is not finite is serialised as \<^verbatim>\<open>null\<close>\<close>
  "json_number s = (if s \<in> set [''NaN'', ''Infinity'', ''-Infinity''] then ''null'' else s)"

definition array_element :: "string option \<Rightarrow> string" where
  "array_element r = (case r of None \<Rightarrow> ''null'' | Some t \<Rightarrow> t)"

definition json_array :: "(js_error + string option) list \<Rightarrow> js_error + string option" where
  "json_array rs =
     (case collect rs of
        Inl e \<Rightarrow> Inl e
      | Inr outs \<Rightarrow> Inr (Some (''['' @ join '','' (map array_element outs) @ '']'')))"

definition member_result :: "string \<times> (js_error + 'a) \<Rightarrow> js_error + string \<times> 'a" where
  "member_result p = (case snd p of Inl e \<Rightarrow> Inl e | Inr r \<Rightarrow> Inr (fst p, r))"

definition object_member :: "string \<times> string option \<Rightarrow> string list" where
  "object_member p = (case snd p of None \<Rightarrow> [] | Some t \<Rightarrow> [quote_string (fst p) @ '':'' @ t])"

definition json_object ::
  "(string \<times> (js_error + string option)) list \<Rightarrow> js_error + string option" where
  "json_object ps =
     (case collect (map member_result (own_entries ps)) of
        Inl e \<Rightarrow> Inl e
      | Inr ms \<Rightarrow> Inr (Some (''{'' @ join '','' (concat (map object_member ms)) @ ''}'')))"

text \<open>
  \<^verbatim>\<open>JSON.stringify\<close> returns \<^verbatim>\<open>undefined\<close> (here \<open>None\<close>) for \<^verbatim>\<open>undefined\<close>; a property
  whose value serialises to \<^verbatim>\<open>undefined\<close> is left out, an array element becomes \<^verbatim>\<open>null\<close>.
  It throws a TypeError when it meets a BigInt or comes back to an object it is serialising.
\<close>

primrec JSON_stringify :: "jsval \<Rightarrow> js_error + string option" where
  "JSON_stringify JUndefined = Inr None"
| "JSON_stringify JNull = Inr (Some ''null'')"
| "JSON_stringify (JBool b) = Inr (Some (if b then ''true'' else ''false''))"
| "JSON_stringify (JNum s) = Inr (Some (json_number s))"
| "JSON_stringify (JBigInt n) = Inl TypeError"
| "JSON_stringify (JStr s) = Inr (Some (quote_string s))"
| "JSON_stringify (JArr xs) = json_array (map JSON_stringify xs)"
| "JSON_stringify (JObj ps) = json_object (map (map_prod id JSON_stringify) ps)"
| "JSON_stringify JCyclic = Inl TypeError"

definition array_item :: "jsval \<times> string \<Rightarrow> string" where
  "array_item p = (if fst p = JUndefined \<or> fst p = JNull then [] else snd p)"

primrec String :: "jsval \<Rightarrow> string" where
  "String JUndefined = ''undefined''"
| "String JNull = ''null''"
| "String (JBool b) = (if b then ''true'' else ''false'')"
| "String (JNum s) = s"
| "String (JBigInt n) = bigint_to_string n"
| "String (JStr s) = s"
| "String (JArr xs) = join '','' (map array_item (zip xs (map String xs)))"
| "String (JObj ps) = ''[object Object]''"
| "String JCyclic = ''[object Object]''"

definition typeof_object :: "jsval \<Rightarrow> bool" where
  "typeof_object v =
     (case v of JNull \<Rightarrow> True | JArr xs \<Rightarrow> True | JObj ps \<Rightarrow> True | JCyclic \<Rightarrow> True | _ \<Rightarrow> False)"

section \<open>The transport\<close>

text \<open>
  The fields of \<^verbatim>\<open>ParseableTransport\<close> that the batching depends on. \<open>timer\<close> tells whether
  the interval of \<^verbatim>\<open>startBatchProcessor\<close> is scheduled. Three fields stand for the effects of
  the class: \<open>pending\<close> holds, for every \<^verbatim>\<open>flush\<close> suspended at its \<^verbatim>\<open>await\<close>, the
  \<^verbatim>\<open>logsToSend\<close> it captured; \<open>sent\<close> is the trace of the arguments of all
  \<^verbatim>\<open>sendToParseable\<close> calls so far; \<open>immediates\<close> counts the callbacks handed to
  \<^verbatim>\<open>setImmediate\<close>. The URL, the credentials and the stream name only shape the request
  headers and are left out.
\<close>

record transport =
  batchSize :: int
  flushInterval :: int
  batch :: "jsobj list"
  timer :: bool
  retryCount :: nat
  maxRetries :: nat
  pending :: "jsobj list list"
  sent :: "jsobj list list"
  immediates :: nat

record options =
  opt_batchSize :: "int option"
  opt_flushInterval :: "int option"

definition or_default :: "int option \<Rightarrow> int \<Rightarrow> int" where
  \<comment> \<open>\<^verbatim>\<open>opts.x || d\<close>: an absent option and the number 0 are falsy\<close>
  "or_default x d = (case x of None \<Rightarrow> d | Some n \<Rightarrow> if n = 0 then d else n)"

definition startBatchProcessor :: "transport \<Rightarrow> transport" where
  "startBatchProcessor s = (let s1 = (if timer s then s\<lparr>timer := False\<rparr> else s) in s1\<lparr>timer := True\<rparr>)"

definition new_transport :: "options \<Rightarrow> transport" where
  "new_transport opts =
     startBatchProcessor
       \<lparr>batchSize = or_default (opt_batchSize opts) 5,
        flushInterval = or_default (opt_flushInterval opts) 3000,
        batch = [], timer = False, retryCount = 0, maxRetries = 3,
        pending = [], sent = [], immediates = 0\<rparr>"

subsection \<open>\<^verbatim>\<open>extractMetadata\<close>\<close>

text \<open>
  The two symbols in the exclusion list of the source never equal a string key of
  \<^verbatim>\<open>Object.entries\<close>, so three keys are excluded. The loop ends at the first field whose
  \<^verbatim>\<open>JSON.stringify\<close> throws, and \<^verbatim>\<open>extractMetadata\<close> throws with it. The assignment
  \<^verbatim>\<open>metadata[key] = ...\<close> stores a string (or \<^verbatim>\<open>undefined\<close>); under the key \<^verbatim>\<open>__proto__\<close> it
  reaches the inherited setter, which ignores such a value, and no property is created.
\<close>

definition assign_prop :: "string \<Rightarrow> jsval \<Rightarrow> jsobj \<Rightarrow> jsobj" where
  "assign_prop k v obj = (if k = ''__proto__'' then obj else AList.update k v obj)"

definition metadata_value :: "jsval \<Rightarrow> js_error + jsval" where
  "metadata_value v =
     (if typeof_object v
      then (case JSON_stringify v of
              Inl e \<Rightarrow> Inl e
            | Inr None \<Rightarrow> Inr JUndefined
            | Inr (Some t) \<Rightarrow> Inr (JStr t))
      else Inr (JStr (String v)))"

definition metadata_step :: "string \<times> jsval \<Rightarrow> js_error + jsobj \<Rightarrow> js_error + jsobj" where
  "metadata_step p acc =
     (case acc of
        Inl e \<Rightarrow> Inl e
      | Inr metadata \<Rightarrow>
          if fst p \<notin> set [''level'', ''message'', ''timestamp'']
          then (if snd p \<noteq> JNull \<and> snd p \<noteq> JUndefined
                then (case metadata_value (snd p) of
                        Inl e \<Rightarrow> Inl e
                      | Inr t \<Rightarrow> Inr (assign_prop (fst p) t metadata))
                else Inr metadata)
          else Inr metadata)"

definition extractMetadata :: "jsobj \<Rightarrow> js_error + jsobj" where
  "extractMetadata info = fold metadata_step (own_entries info) (Inr [])"

subsection \<open>\<^verbatim>\<open>flush\<close>, before and after its \<^verbatim>\<open>await\<close>\<close>

text \<open>
  \<^verbatim>\<open>flush\<close> runs synchronously up to \<^verbatim>\<open>await this.sendToParseable(logsToSend)\<close>: the batch is
  copied and emptied, the request is built and written. The rest of \<^verbatim>\<open>flush\<close> runs when the
  promise settles, as one uninterrupted step: \<open>flush_settled\<close>.
\<close>

definition sendToParseable :: "jsobj list \<Rightarrow> transport \<Rightarrow> transport" where
  "sendToParseable logs s = s\<lparr>sent := sent s @ [logs]\<rparr>"

definition flush :: "transport \<Rightarrow> transport" where
  "flush s =
     (if length (batch s) = 0 then s
      else let logsToSend = batch s;
               s1 = s\<lparr>batch := []\<rparr>;
               s2 = sendToParseable logsToSend s1
           in s2\<lparr>pending := pending s2 @ [logsToSend]\<rparr>)"

text \<open>How a request ends: the response's \<^verbatim>\<open>end\<close> event with its status code, the request's
  \<^verbatim>\<open>error\<close> event, the 10 second timeout, or an exception inside the promise executor (as
  when the URL did not parse and \<^verbatim>\<open>this.parsedUrl\<close> is undefined).\<close>

datatype outcome = Response int | NetworkError | RequestTimeout | ExecutorThrew

fun resolves :: "outcome \<Rightarrow> bool" where
  "resolves (Response statusCode) = (statusCode \<ge> 200 \<and> statusCode < 300)"
| "resolves NetworkError = False"
| "resolves RequestTimeout = False"
| "resolves ExecutorThrew = False"

definition slice :: "int \<Rightarrow> 'a list \<Rightarrow> 'a list" where
  \<comment> \<open>\<^verbatim>\<open>xs.slice(start)\<close>: a negative start counts from the end\<close>
  "slice start xs =
     (let len = int (length xs);
          k = (if start < 0 then max (len + start) 0 else min start len)
      in drop (nat k) xs)"

definition flush_settled :: "jsobj list \<Rightarrow> outcome \<Rightarrow> transport \<Rightarrow> transport" where
  "flush_settled logsToSend out s =
     (if resolves out then s\<lparr>retryCount := 0\<rparr>
      else if retryCount s < maxRetries s
        then let s1 = s\<lparr>retryCount := retryCount s + 1\<rparr>
             in s1\<lparr>batch := slice (- 3) logsToSend @ batch s1\<rparr>
      else s)"

subsection \<open>\<^verbatim>\<open>log\<close>, the timer and \<^verbatim>\<open>close\<close>\<close>

definition logEntry :: "(string \<Rightarrow> string) \<Rightarrow> string \<Rightarrow> string \<Rightarrow> jsobj \<Rightarrow> js_error + jsobj" where
  \<comment> \<open>\<open>now\<close> is \<^verbatim>\<open>new Date().toISOString()\<close>, \<open>lvl\<close> is \<^verbatim>\<open>info.level\<close>\<close>
  "logEntry unicode now lvl info =
     (case extractMetadata info of
        Inl e \<Rightarrow> Inl e
      | Inr metadata \<Rightarrow>
          Inr (assign_all metadata
                 [(''p_timestamp'', JStr now),
                  (''level'', JStr (toUpperCase unicode lvl)),
                  (''message'', get_prop info ''message''),
                  (''service'', JStr ''n8n-comprehensive''),
                  (''logger'', JStr ''winston'')]))"

text \<open>
  \<^verbatim>\<open>log\<close> has no \<^verbatim>\<open>try\<close>: \<^verbatim>\<open>info.level.toUpperCase()\<close> throws a TypeError unless
  \<^verbatim>\<open>info.level\<close> is a string, and a throw of \<^verbatim>\<open>extractMetadata\<close> passes through. Both
  happen before the batch is touched.
\<close>

definition log ::
  "(string \<Rightarrow> string) \<Rightarrow> string \<Rightarrow> jsobj \<Rightarrow> bool \<Rightarrow> transport \<Rightarrow> js_error + transport" where
  "log unicode now info callback s =
     (case get_prop info ''level'' of
        JStr lvl \<Rightarrow>
          (case logEntry unicode now lvl info of
             Inl e \<Rightarrow> Inl e
           | Inr entry \<Rightarrow>
               let s1 = s\<lparr>batch := batch s @ [entry]\<rparr>;
                   s2 = (if int (length (batch s1)) \<ge> batchSize s1 then flush s1 else s1)
               in Inr (if callback then s2\<lparr>immediates := immediates s2 + 1\<rparr> else s2))
      | _ \<Rightarrow> Inl TypeError)"

definition timer_callback :: "transport \<Rightarrow> transport" where
  "timer_callback s = (if length (batch s) > 0 then flush s else s)"

definition close :: "transport \<Rightarrow> transport" where
  "close s =
     (let s1 = (if timer s then s\<lparr>timer := False\<rparr> else s)
      in if length (batch s1) > 0 then flush s1 else s1)"

subsection \<open>The request body\<close>

text \<open>One element of \<^verbatim>\<open>logRecords\<close>. \<open>nanos\<close> stands for
  \<^verbatim>\<open>v => String(new Date(v).getTime() * 1000000)\<close>, whose date parsing and floating-point
  product are not modelled.\<close>

record logRecord =
  timeUnixNano :: string
  severityText :: jsval
  body_stringValue :: jsval
  attributes :: "(string \<times> string) list"

definition record_attributes :: "jsobj \<Rightarrow> (string \<times> string) list" where
  "record_attributes lg =
     map (\<lambda>p. (fst p, String (snd p)))
       (filter (\<lambda>p. fst p \<notin> set [''p_timestamp'', ''level'', ''message'']) (own_entries lg))"

definition encode :: "(jsval \<Rightarrow> string) \<Rightarrow> jsobj \<Rightarrow> logRecord" where
  "encode nanos lg =
     \<lparr>timeUnixNano = nanos (get_prop lg ''p_timestamp''),
      severityText = get_prop lg ''level'',
      body_stringValue = get_prop lg ''message'',
      attributes = record_attributes lg\<rparr>"

definition logRecords :: "(jsval \<Rightarrow> string) \<Rightarrow> jsobj list \<Rightarrow> logRecord list" where
  "logRecords nanos logs = map (encode nanos) logs"

subsection \<open>Runs\<close>

text \<open>
  What can happen to a transport, one uninterrupted step each: a \<^verbatim>\<open>log\<close> call, a tick of the
  interval (its callback runs only while the interval is scheduled), the settling of the
  \<open>k\<close>-th pending send, a \<^verbatim>\<open>close\<close> call. A \<^verbatim>\<open>log\<close> call that throws leaves the transport as
  it was.
\<close>

datatype event = Log string jsobj bool | Tick | Settled nat outcome | Close

definition settle :: "nat \<Rightarrow> outcome \<Rightarrow> transport \<Rightarrow> transport" where
  "settle k out s =
     (if k < length (pending s)
      then flush_settled (pending s ! k) out
             (s\<lparr>pending := take k (pending s) @ drop (Suc k) (pending s)\<rparr>)
      else s)"

fun step :: "(string \<Rightarrow> string) \<Rightarrow> event \<Rightarrow> transport \<Rightarrow> transport" where
  "step unicode (Log now info callback) s =
     (case log unicode now info callback s of Inl e \<Rightarrow> s | Inr s' \<Rightarrow> s')"
| "step unicode Tick s = (if timer s then timer_callback s else s)"
| "step unicode (Settled k out) s = settle k out s"
| "step unicode Close s = close s"

definition run :: "(string \<Rightarrow> string) \<Rightarrow> event list \<Rightarrow> transport \<Rightarrow> transport" where
  "run unicode es s = fold (step unicode) es s"

definition flush_and_settle :: "outcome \<Rightarrow> transport \<Rightarrow> transport" where
  \<comment> \<open>a flush whose send settles before anything else happens\<close>
  "flush_and_settle out s = settle (length (pending s)) out (flush s)"

definition settle_all :: "(jsobj list \<times> outcome) list \<Rightarrow> transport \<Rightarrow> transport" where
  \<comment> \<open>consecutive settlements, each with the \<^verbatim>\<open>logsToSend\<close> of its flush\<close>
  "settle_all fs s = fold (\<lambda>f. flush_settled (fst f) (snd f)) fs s"

subsection \<open>Observing a run\<close>

text \<open>
  For statements about what the shared batch holds, a run is observed together with two
  lists: the entries accepted since the most recent drain (an accepted \<^verbatim>\<open>log\<close> call adds its
  entry, a step that calls \<^verbatim>\<open>sendToParseable\<close>, so that the trace \<open>sent\<close> grows, starts again
  from none), and the snapshots whose send has failed so far.
\<close>

definition accepted :: "(string \<Rightarrow> string) \<Rightarrow> event \<Rightarrow> jsobj list" where
  "accepted unicode e =
     (case e of
        Log now info callback \<Rightarrow>
          (case get_prop info ''level'' of
             JStr lvl \<Rightarrow>
               (case logEntry unicode now lvl info of Inl err \<Rightarrow> [] | Inr entry \<Rightarrow> [entry])
           | _ \<Rightarrow> [])
      | _ \<Rightarrow> [])"

definition failed_now :: "event \<Rightarrow> transport \<Rightarrow> jsobj list list" where
  "failed_now e s =
     (case e of
        Settled k out \<Rightarrow> if k < length (pending s) \<and> \<not> resolves out then [pending s ! k] else []
      | _ \<Rightarrow> [])"

record observation =
  obs_state :: transport
  obs_fresh :: "jsobj list"
  obs_failed :: "jsobj list list"

definition observe :: "(string \<Rightarrow> string) \<Rightarrow> event \<Rightarrow> observation \<Rightarrow> observation" where
  "observe unicode e x =
     (let s' = step unicode e (obs_state x)
      in \<lparr>obs_state = s',
          obs_fresh = (if length (sent s') > length (sent (obs_state x)) then []
                       else obs_fresh x @ accepted unicode e),
          obs_failed = obs_failed x @ failed_now e (obs_state x)\<rparr>)"

definition observe_run :: "(string \<Rightarrow> string) \<Rightarrow> event list \<Rightarrow> transport \<Rightarrow> observation" where
  "observe_run unicode es s =
     fold (observe unicode) es \<lparr>obs_state = s, obs_fresh = [], obs_failed = []\<rparr>"

definition requeued_from :: "jsobj list list \<Rightarrow> jsobj list \<Rightarrow> bool" where
  \<comment> \<open>\<open>rq\<close> is made of the last three entries of snapshots among \<open>fs\<close>, one group after another\<close>
  "requeued_from fs rq = (\<exists>gs. set gs \<subseteq> set fs \<and> rq = concat (map (slice (- 3)) gs))"

definition well_observed :: "observation \<Rightarrow> bool" where
  "well_observed x =
     ((\<exists>rq. requeued_from (obs_failed x) rq \<and> batch (obs_state x) = rq @ obs_fresh x)
      \<and> set (pending (obs_state x)) \<subseteq> set (sent (obs_state x))
      \<and> set (obs_failed x) \<subseteq> set (sent (obs_state x)))"

subsection \<open>Fields that are kept, fields that throw\<close>

definition kept_field :: "string \<times> jsval \<Rightarrow> bool" where
  \<comment> \<open>the two guards of \<^verbatim>\<open>extractMetadata\<close>, and an assignment that creates a property\<close>
  "kept_field p = (fst p \<notin> set [''level'', ''message'', ''timestamp'']
                    \<and> snd p \<noteq> JNull \<and> snd p \<noteq> JUndefined \<and> fst p \<noteq> ''__proto__'')"

definition supplies :: "jsobj \<Rightarrow> string \<Rightarrow> bool" where
  \<comment> \<open>the event has a field of this key that \<^verbatim>\<open>extractMetadata\<close> keeps\<close>
  "supplies info k = (\<exists>p \<in> set info. fst p = k \<and> kept_field p)"


subsection \<open>Concrete inputs\<close>

definition ascii_only :: "string \<Rightarrow> string" where
  \<comment> \<open>stands in for the Unicode mappings in the runs below, whose levels are ASCII\<close>
  "ascii_only s = s"

definition zero_nanos :: "jsval \<Rightarrow> string" where
  "zero_nanos v = ''0''"

definition no_options :: options where
  "no_options = \<lparr>opt_batchSize = None, opt_flushInterval = None\<rparr>"

definition wide_options :: options where
  "wide_options = \<lparr>opt_batchSize = Some 20, opt_flushInterval = None\<rparr>"


definition plain_info :: jsobj where
  "plain_info = [(''level'', JStr ''info''), (''message'', JStr ''m'')]"

definition plain_entry :: "string \<Rightarrow> jsobj" where
  \<comment> \<open>the entry that \<^verbatim>\<open>log\<close> builds from \<open>plain_info\<close> at the clock reading \<open>t\<close>\<close>
  "plain_entry t =
     [(''p_timestamp'', JStr t), (''level'', JStr ''INFO''), (''message'', JStr ''m''),
      (''service'', JStr ''n8n-comprehensive''), (''logger'', JStr ''winston'')]"

definition one_logged :: transport where
  "one_logged = run ascii_only [Log ''t'' plain_info False] (new_transport no_options)"

definition exhausted :: transport where
  "exhausted =
     run ascii_only [Tick, Settled 0 NetworkError, Tick, Settled 0 (Response 503),
                     Tick, Settled 0 RequestTimeout] one_logged"

definition boom_info :: "jsval \<Rightarrow> jsobj" where
  \<comment> \<open>the event of the encoding example, with any \<^verbatim>\<open>timestamp\<close>\<close>
  "boom_info ts =
     [(''code'', JNum ''42''), (''nested'', JObj [(''a'', JNum ''1'')]),
      (''level'', JStr ''ERROR''), (''message'', JStr ''boom''), (''timestamp'', ts)]"

definition null_field_info :: jsobj where
  "null_field_info = [(''level'', JStr ''info''), (''message'', JStr ''m''), (''user'', JNull)]"

definition service_info :: jsobj where
  "service_info =
     [(''level'', JStr ''info''), (''message'', JStr ''m''), (''service'', JStr ''billing'')]"

definition null_service_info :: jsobj where
  "null_service_info =
     [(''level'', JStr ''info''), (''message'', JStr ''m''), (''service'', JNull)]"




definition timing_info :: jsobj where
  "timing_info =
     [(''level'', JStr ''info''), (''message'', JStr ''m''),
      (''duration_seconds'', JNum ''1.5''), (''bytes'', JNum ''1152921504606847000''),
      (''tags'', JArr [JNum ''0.25'', JNum ''NaN''])]"

definition billing_entry :: jsobj where
  \<comment> \<open>the entry that \<^verbatim>\<open>log\<close> builds from \<open>service_info\<close> at the clock reading \<open>t\<close>\<close>
  "billing_entry =
     [(''p_timestamp'', JStr ''t''), (''level'', JStr ''INFO''), (''message'', JStr ''m''),
      (''service'', JStr ''billing''), (''logger'', JStr ''winston'')]"

definition timing_entry :: jsobj where
  \<comment> \<open>the entry that \<^verbatim>\<open>log\<close> builds from \<open>timing_info\<close> at the clock reading \<open>t\<close>\<close>
  "timing_entry =
     [(''p_timestamp'', JStr ''t''), (''level'', JStr ''INFO''), (''message'', JStr ''m''),
      (''service'', JStr ''n8n-comprehensive''), (''logger'', JStr ''winston''),
      (''duration_seconds'', JStr ''1.5''), (''bytes'', JStr ''1152921504606847000''),
      (''tags'', JStr ''[0.25,null]'')]"

definition logs_at :: "string list \<Rightarrow> event list" where
  "logs_at ts = map (\<lambda>t. Log t plain_info False) ts"

definition ten_in_flight :: "event list" where
  \<comment> \<open>five events, a timer flush, ten events while its send is pending, the send fails\<close>
  "ten_in_flight =
     logs_at [''a1'', ''a2'', ''a3'', ''a4'', ''a5''] @ [Tick]
       @ logs_at [''b1'', ''b2'', ''b3'', ''b4'', ''b5'', ''b6'', ''b7'', ''b8'', ''b9'', ''b10'']
       @ [Settled 0 NetworkError]"

definition requeue_run :: "event list" where
  "requeue_run = [Log ''t'' plain_info False, Tick, Settled 0 NetworkError]"

definition resend_run :: "event list" where
  \<comment> \<open>\<open>b\<close> is accepted while the send of \<open>a\<close> is pending; its own send fails once\<close>
  "resend_run =
     [Log ''a'' plain_info False, Tick, Log ''b'' plain_info False, Settled 0 (Response 200),
      Tick, Settled 0 NetworkError, Tick]"

section \<open>Retry\<close>

lemma slice_last_three: "slice (- 3) xs = drop (length xs - 3) xs"
proof -
  have "nat (max (int (length xs) - 3) 0) = length xs - 3" by arith
  then show ?thesis by (simp add: slice_def)
qed

lemma flush_nonempty:
  "batch s \<noteq> [] \<Longrightarrow>
   flush s = s\<lparr>batch := [], sent := sent s @ [batch s], pending := pending s @ [batch s]\<rparr>"
  by (simp add: flush_def sendToParseable_def Let_def)

lemma flush_empty: "batch s = [] \<Longrightarrow> flush s = s"
  by (simp add: flush_def)

lemma flush_and_settle_nonempty:
  "batch s \<noteq> [] \<Longrightarrow>
   flush_and_settle out s = flush_settled (batch s) out (s\<lparr>batch := [], sent := sent s @ [batch s]\<rparr>)"
  by (simp add: flush_and_settle_def settle_def flush_nonempty)

lemma flush_and_settle_requeue:
  "batch s \<noteq> [] \<Longrightarrow> \<not> resolves out \<Longrightarrow> retryCount s < maxRetries s \<Longrightarrow>
   flush_and_settle out s
     = s\<lparr>batch := slice (- 3) (batch s), sent := sent s @ [batch s], retryCount := retryCount s + 1\<rparr>"
  by (simp add: flush_and_settle_nonempty flush_settled_def)

lemma flush_and_settle_drop:
  "batch s \<noteq> [] \<Longrightarrow> \<not> resolves out \<Longrightarrow> maxRetries s \<le> retryCount s \<Longrightarrow>
   flush_and_settle out s = s\<lparr>batch := [], sent := sent s @ [batch s]\<rparr>"
  by (simp add: flush_and_settle_nonempty flush_settled_def)

lemma settle_all_failures:
  "\<forall>f \<in> set fs. \<not> resolves (snd f) \<Longrightarrow> retryCount s + length fs \<le> maxRetries s \<Longrightarrow>
   retryCount (settle_all fs s) = retryCount s + length fs
     \<and> maxRetries (settle_all fs s) = maxRetries s"
proof (induction fs arbitrary: s)
  case Nil
  then show ?case by (simp add: settle_all_def)
next
  case (Cons f fs)
  let ?s = "flush_settled (fst f) (snd f) s"
  from Cons.prems have f: "\<not> resolves (snd f)" and lt: "retryCount s < maxRetries s" by auto
  then have s: "retryCount ?s = retryCount s + 1" "maxRetries ?s = maxRetries s"
    by (simp_all add: flush_settled_def)
  with Cons.prems have "retryCount ?s + length fs \<le> maxRetries ?s" by simp
  with Cons.IH [of ?s] Cons.prems s show ?case by (simp add: settle_all_def)
qed

lemma one_logged_fields:
  "maxRetries one_logged = 3" "retryCount one_logged = 0" "batch one_logged \<noteq> []"
  by code_simp+

lemma exhausted_fields:
  "maxRetries exhausted = 3" "retryCount exhausted = 3" "length (batch exhausted) = 1"
  by code_simp+

text \<open>
  C1 (as the code has it). When a send fails and the retry counter is no longer below
  \<open>maxRetries\<close>, the continuation of \<^verbatim>\<open>flush\<close> changes nothing: no event of the drained snapshot
  goes back into the shared batch, and the counter keeps its value. It is not set to zero; only
  a successful send does that.
\<close>

theorem exhausted_failure_changes_nothing:
  "\<not> resolves out \<Longrightarrow> maxRetries s \<le> retryCount s \<Longrightarrow> flush_settled snap out s = s"
  by (simp add: flush_settled_def)

theorem exhausted_failure_changes_nothing_witness:
  "\<not> resolves NetworkError \<and> maxRetries exhausted \<le> retryCount exhausted
   \<and> flush_settled [plain_info] NetworkError exhausted = exhausted"
proof -
  have h1: "\<not> resolves NetworkError" by simp
  have h2: "maxRetries exhausted \<le> retryCount exhausted" by (simp add: exhausted_fields)
  from exhausted_failure_changes_nothing [OF h1 h2] h1 h2 show ?thesis by simp
qed

text \<open>
  C1 as stated fails. After three failed sends the counter of a fresh transport equals
  \<open>maxRetries\<close>; a fourth failed flush drops the snapshot and leaves the counter at 3. The same
  holds from a counter of 4, above \<open>maxRetries\<close>.
\<close>

theorem exhausted_failure_keeps_counter:
  "maxRetries exhausted \<le> retryCount exhausted
   \<and> batch (flush_and_settle NetworkError exhausted) = []
   \<and> retryCount (flush_and_settle NetworkError exhausted) = 3
   \<and> maxRetries (exhausted\<lparr>retryCount := 4\<rparr>) < retryCount (exhausted\<lparr>retryCount := 4\<rparr>)
   \<and> retryCount (flush_and_settle NetworkError (exhausted\<lparr>retryCount := 4\<rparr>)) = 4"
  by code_simp

text \<open>
  C5. When a send fails and the retry counter is below \<open>maxRetries\<close>, the snapshot splits into
  older events and the kept ones: the kept ones are its last three (all of it when it has
  fewer), in order, and the shared batch afterwards is the kept events followed by what the
  batch held at that moment, that is, by the events accepted during the send. The older events
  are in no field of the transport any more.
\<close>

theorem failed_send_requeues_last_three:
  assumes "\<not> resolves out" and "retryCount s < maxRetries s"
  shows "\<exists>older kept. snap = older @ kept \<and> length kept = min 3 (length snap)
           \<and> batch (flush_settled snap out s) = kept @ batch s"
proof (intro exI conjI)
  show "snap = take (length snap - 3) snap @ drop (length snap - 3) snap" by simp
  show "length (drop (length snap - 3) snap) = min 3 (length snap)" by auto
  show "batch (flush_settled snap out s) = drop (length snap - 3) snap @ batch s"
    using assms by (simp add: flush_settled_def slice_last_three)
qed

theorem failed_send_requeues_last_three_witness:
  "\<not> resolves RequestTimeout \<and> retryCount one_logged < maxRetries one_logged
   \<and> (\<exists>older kept. [[], plain_info, [], plain_info, []] = older @ kept
         \<and> length kept = min 3 (length [[], plain_info, [], plain_info, []])
         \<and> batch (flush_settled [[], plain_info, [], plain_info, []] RequestTimeout one_logged)
             = kept @ batch one_logged)"
proof -
  have h1: "\<not> resolves RequestTimeout" by simp
  have h2: "retryCount one_logged < maxRetries one_logged" by (simp add: one_logged_fields)
  from failed_send_requeues_last_three [OF h1 h2] h1 h2 show ?thesis by blast
qed

text \<open>
  C6. A send that ends with a status code from 200 to 299 sets the retry counter to zero.
  Hence, from a zero counter, \<open>N\<close> failed sends with \<open>N < maxRetries\<close> bring the counter to
  \<open>N\<close>, the successful send brings it back to zero, and the failure after that is counted as
  attempt 1.
\<close>

theorem success_resets_retry_counter:
  assumes "200 \<le> c" and "c \<le> 299"
  shows "retryCount (flush_settled snap (Response c) s) = 0
    \<and> (\<forall>fs snap' out'. retryCount s = 0 \<and> length fs < maxRetries s
          \<and> (\<forall>f \<in> set fs. \<not> resolves (snd f)) \<and> \<not> resolves out'
        \<longrightarrow> retryCount (settle_all fs s) = length fs
          \<and> retryCount (flush_settled snap' out'
               (flush_settled snap (Response c) (settle_all fs s))) = 1)"
proof -
  have ok: "resolves (Response c)" using assms by simp
  have "retryCount (settle_all fs s) = length fs
      \<and> retryCount (flush_settled snap' out' (flush_settled snap (Response c) (settle_all fs s))) = 1"
    if h: "retryCount s = 0" "length fs < maxRetries s" "\<forall>f \<in> set fs. \<not> resolves (snd f)"
      "\<not> resolves out'"
    for fs snap' out'
  proof -
    from settle_all_failures [of fs s] h
    have "retryCount (settle_all fs s) = length fs" "maxRetries (settle_all fs s) = maxRetries s"
      by simp_all
    with h ok show ?thesis by (simp add: flush_settled_def del: resolves.simps)
  qed
  moreover have "retryCount (flush_settled snap (Response c) s) = 0"
    using ok by (simp add: flush_settled_def del: resolves.simps)
  ultimately show ?thesis by blast
qed

theorem success_resets_retry_counter_witness:
  "(200::int) \<le> 204 \<and> (204::int) \<le> 299
   \<and> retryCount (flush_settled [plain_info] (Response 204) exhausted) = 0
   \<and> retryCount (settle_all [([plain_info], NetworkError), ([plain_info], Response 500)] one_logged) = 2
   \<and> retryCount (flush_settled [plain_info] RequestTimeout
        (flush_settled [plain_info] (Response 204)
          (settle_all [([plain_info], NetworkError), ([plain_info], Response 500)] one_logged))) = 1"
proof -
  have h1: "(200::int) \<le> 204" and h2: "(204::int) \<le> 299" by simp_all
  have a: "retryCount (flush_settled [plain_info] (Response 204) exhausted) = 0"
    using success_resets_retry_counter [OF h1 h2, of "[plain_info]" exhausted] by blast
  have pre: "retryCount one_logged = 0
      \<and> length [([plain_info], NetworkError), ([plain_info], Response 500)] < maxRetries one_logged
      \<and> (\<forall>f \<in> set [([plain_info], NetworkError), ([plain_info], Response 500)]. \<not> resolves (snd f))
      \<and> \<not> resolves RequestTimeout"
    by (simp add: one_logged_fields)
  from success_resets_retry_counter [OF h1 h2, of "[plain_info]" one_logged] pre
  have "retryCount (settle_all [([plain_info], NetworkError), ([plain_info], Response 500)] one_logged)
          = length [([plain_info], NetworkError), ([plain_info], Response 500)]
      \<and> retryCount (flush_settled [plain_info] RequestTimeout
          (flush_settled [plain_info] (Response 204)
            (settle_all [([plain_info], NetworkError), ([plain_info], Response 500)] one_logged))) = 1"
    by blast
  with a h1 h2 show ?thesis by simp
qed

text \<open>
  C7. With \<open>maxRetries = 3\<close> and a zero counter, take a non-empty batch through four flushes
  whose sends all fail. Each of the first three failures puts the last three events of the
  first snapshot back into the batch, the third one with the counter at 3; the fourth failure
  leaves the batch empty. Four requests were made in all (the first send and three retries),
  and there is nothing left to send a fifth time.
\<close>

theorem three_requeues_then_drop:
  assumes "maxRetries s = 3" and "retryCount s = 0" and "batch s \<noteq> []"
    and "\<not> resolves o1" and "\<not> resolves o2" and "\<not> resolves o3" and "\<not> resolves o4"
  shows "batch (flush_and_settle o1 s) = slice (- 3) (batch s)
    \<and> batch (flush_and_settle o1 s) \<noteq> []
    \<and> batch (flush_and_settle o2 (flush_and_settle o1 s)) = slice (- 3) (batch s)
    \<and> batch (flush_and_settle o3 (flush_and_settle o2 (flush_and_settle o1 s))) = slice (- 3) (batch s)
    \<and> retryCount (flush_and_settle o3 (flush_and_settle o2 (flush_and_settle o1 s))) = 3
    \<and> batch (flush_and_settle o4 (flush_and_settle o3 (flush_and_settle o2 (flush_and_settle o1 s)))) = []
    \<and> sent (flush_and_settle o4 (flush_and_settle o3 (flush_and_settle o2 (flush_and_settle o1 s))))
        = sent s @ [batch s, slice (- 3) (batch s), slice (- 3) (batch s), slice (- 3) (batch s)]"
proof -
  let ?k = "slice (- 3) (batch s)"
  have "length (batch s) - 3 < length (batch s)" using assms(3) by (cases "batch s") auto
  then have k: "?k \<noteq> []" "slice (- 3) ?k = ?k" by (auto simp: slice_last_three)
  show ?thesis using assms k by (simp add: flush_and_settle_requeue flush_and_settle_drop)
qed

theorem three_requeues_then_drop_witness:
  "maxRetries one_logged = 3 \<and> retryCount one_logged = 0 \<and> batch one_logged \<noteq> []
   \<and> \<not> resolves NetworkError \<and> \<not> resolves (Response 503) \<and> \<not> resolves RequestTimeout
   \<and> \<not> resolves ExecutorThrew
   \<and> batch (flush_and_settle RequestTimeout (flush_and_settle (Response 503)
        (flush_and_settle NetworkError one_logged))) = slice (- 3) (batch one_logged)
   \<and> batch (flush_and_settle ExecutorThrew (flush_and_settle RequestTimeout
        (flush_and_settle (Response 503) (flush_and_settle NetworkError one_logged)))) = []"
proof -
  have r: "\<not> resolves NetworkError" "\<not> resolves (Response 503)" "\<not> resolves RequestTimeout"
    "\<not> resolves ExecutorThrew" by simp_all
  from three_requeues_then_drop [OF one_logged_fields r] r one_logged_fields
  show ?thesis by simp
qed

section \<open>Encoding\<close>

lemma set_own_entries: "set (own_entries ps) = set ps"
  by (auto simp: own_entries_def)

lemma distinct_own_entries:
  assumes "distinct (map fst ps)"
  shows "distinct (map fst (own_entries ps))"
proof -
  from assms have d: "distinct ps" and i: "inj_on fst (set ps)" by (simp_all add: distinct_map)
  from d have "distinct (own_entries ps)" by (auto simp: own_entries_def)
  with i show ?thesis by (simp add: distinct_map set_own_entries)
qed

lemma map_of_own_entries:
  "distinct (map fst ps) \<Longrightarrow> map_of (own_entries ps) = map_of ps"
  using map_of_inject_set [of "own_entries ps" ps]
  by (simp add: distinct_own_entries set_own_entries)


lemma fold_metadata_Inl: "fold metadata_step xs (Inl e) = Inl e"
  by (induction xs) (simp_all add: metadata_step_def)

lemma metadata_step_kept:
  "kept_field p \<Longrightarrow> metadata_step p (Inr m) = Inr m' \<Longrightarrow>
   \<exists>t. metadata_value (snd p) = Inr t \<and> m' = AList.update (fst p) t m"
  by (auto simp: metadata_step_def assign_prop_def kept_field_def split: sum.splits)

lemma metadata_step_skipped:
  "\<not> kept_field p \<Longrightarrow> metadata_step p (Inr m) = Inr m' \<Longrightarrow> m' = m"
  by (auto simp: metadata_step_def assign_prop_def kept_field_def split: sum.splits if_splits)

lemma fold_metadata_Cons:
  assumes "fold metadata_step (p # xs) (Inr m0) = Inr m"
  obtains m1 where "metadata_step p (Inr m0) = Inr m1" and "fold metadata_step xs (Inr m1) = Inr m"
proof (cases "metadata_step p (Inr m0)")
  case (Inl e)
  with assms show ?thesis by (simp add: fold_metadata_Inl)
next
  case (Inr m1)
  with assms that show ?thesis by simp
qed

lemma fold_metadata_distinct:
  "fold metadata_step xs (Inr m0) = Inr m \<Longrightarrow> distinct (map fst m0) \<Longrightarrow> distinct (map fst m)"
proof (induction xs arbitrary: m0)
  case Nil
  then show ?case by simp
next
  case (Cons p xs)
  from Cons.prems(1) obtain m1 where s: "metadata_step p (Inr m0) = Inr m1"
    and f: "fold metadata_step xs (Inr m1) = Inr m" by (rule fold_metadata_Cons)
  have "distinct (map fst m1)"
  proof (cases "kept_field p")
    case True
    from metadata_step_kept [OF True s] Cons.prems(2) show ?thesis
      by (auto simp: distinct_update)
  next
    case False
    from metadata_step_skipped [OF False s] Cons.prems(2) show ?thesis by simp
  qed
  with Cons.IH [OF f] show ?case .
qed

lemma fold_metadata_other:
  "fold metadata_step xs (Inr m0) = Inr m \<Longrightarrow>
   \<forall>v. (k, v) \<in> set xs \<longrightarrow> \<not> kept_field (k, v) \<Longrightarrow> map_of m k = map_of m0 k"
proof (induction xs arbitrary: m0)
  case Nil
  then show ?case by simp
next
  case (Cons p xs)
  from Cons.prems(1) obtain m1 where s: "metadata_step p (Inr m0) = Inr m1"
    and f: "fold metadata_step xs (Inr m1) = Inr m" by (rule fold_metadata_Cons)
  have "map_of m1 k = map_of m0 k"
  proof (cases "kept_field p")
    case True
    with Cons.prems(2) have "fst p \<noteq> k" by (cases p) auto
    with metadata_step_kept [OF True s] show ?thesis by (auto simp: update_conv')
  next
    case False
    from metadata_step_skipped [OF False s] show ?thesis by simp
  qed
  moreover from Cons.prems(2) have "\<forall>v. (k, v) \<in> set xs \<longrightarrow> \<not> kept_field (k, v)" by simp
  ultimately show ?case using Cons.IH [OF f] by simp
qed

lemma fold_metadata_kept:
  "fold metadata_step xs (Inr m0) = Inr m \<Longrightarrow> distinct (map fst xs) \<Longrightarrow>
   (k, v) \<in> set xs \<Longrightarrow> kept_field (k, v) \<Longrightarrow>
   \<exists>t. metadata_value v = Inr t \<and> map_of m k = Some t"
proof (induction xs arbitrary: m0)
  case Nil
  then show ?case by simp
next
  case (Cons p xs)
  from Cons.prems(1) obtain m1 where s: "metadata_step p (Inr m0) = Inr m1"
    and f: "fold metadata_step xs (Inr m1) = Inr m" by (rule fold_metadata_Cons)
  show ?case
  proof (cases "p = (k, v)")
    case True
    with Cons.prems(4) have kp: "kept_field p" by simp
    from metadata_step_kept [OF kp s] True obtain t
      where t: "metadata_value v = Inr t" "m1 = AList.update k t m0" by auto
    from True Cons.prems(2) have "\<forall>w. (k, w) \<in> set xs \<longrightarrow> \<not> kept_field (k, w)"
      by (auto simp: image_iff)
    from fold_metadata_other [OF f this] t show ?thesis by (simp add: update_conv')
  next
    case False
    with Cons.prems have "(k, v) \<in> set xs" "distinct (map fst xs)" by auto
    with Cons.IH [OF f] Cons.prems(4) show ?thesis by simp
  qed
qed







lemma distinct_extractMetadata:
  "extractMetadata info = Inr m \<Longrightarrow> distinct (map fst m)"
  unfolding extractMetadata_def by (drule fold_metadata_distinct) simp_all

lemma map_of_fold_update:
  "distinct (map fst xs) \<Longrightarrow>
   map_of (fold (\<lambda>p. AList.update (fst p) (snd p)) xs tgt) = map_of tgt ++ map_of xs"
proof (induction xs arbitrary: tgt)
  case Nil
  then show ?case by simp
next
  case (Cons p xs)
  then have "fst p \<notin> dom (map_of xs)" by (simp add: dom_map_of_conv_image_fst)
  then have "map_of xs (fst p) = None" by blast
  with Cons show ?case
    by (cases p) (auto simp: update_conv' map_add_def fun_eq_iff split: option.splits)
qed

lemma map_of_assign_all:
  "distinct (map fst src) \<Longrightarrow> map_of (assign_all src tgt) = map_of tgt ++ map_of src"
  by (simp add: assign_all_def map_of_fold_update distinct_own_entries map_of_own_entries)

lemma logEntry_Inr:
  assumes "logEntry up now lvl info = Inr e"
  obtains m where "extractMetadata info = Inr m"
    and "map_of e =
           map_of [(''p_timestamp'', JStr now), (''level'', JStr (toUpperCase up lvl)),
                   (''message'', get_prop info ''message''),
                   (''service'', JStr ''n8n-comprehensive''), (''logger'', JStr ''winston'')]
             ++ map_of m"
proof (cases "extractMetadata info")
  case (Inl err)
  with assms show ?thesis by (simp add: logEntry_def)
next
  case (Inr m)
  with assms have "e = assign_all m
      [(''p_timestamp'', JStr now), (''level'', JStr (toUpperCase up lvl)),
       (''message'', get_prop info ''message''),
       (''service'', JStr ''n8n-comprehensive''), (''logger'', JStr ''winston'')]"
    by (simp add: logEntry_def)
  with Inr that show ?thesis by (simp add: map_of_assign_all distinct_extractMetadata)
qed

lemma attribute_of_entry:
  "(k, v) \<in> set lg \<Longrightarrow> k \<notin> set [''p_timestamp'', ''level'', ''message''] \<Longrightarrow>
   (k, String v) \<in> set (record_attributes lg)"
  by (force simp: record_attributes_def set_own_entries)

lemma attribute_key_in_entry:
  assumes "k \<in> fst ` set (record_attributes lg)"
  shows "map_of lg k \<noteq> None"
proof -
  from assms obtain t where "(k, t) \<in> set (record_attributes lg)" by auto
  then obtain v where "(k, v) \<in> set lg"
    by (auto simp: record_attributes_def set_own_entries)
  then have "k \<in> fst ` set lg" by (rule rev_image_eqI) simp
  then show ?thesis by (simp add: map_of_eq_None_iff)
qed

lemma json_array_Some: "json_array rs = Inr r \<Longrightarrow> \<exists>t. r = Some t"
  by (auto simp: json_array_def split: sum.splits)

lemma json_object_Some: "json_object ps = Inr r \<Longrightarrow> \<exists>t. r = Some t"
  by (auto simp: json_object_def split: sum.splits)

lemma metadata_value_string:
  "metadata_value v = Inr t \<Longrightarrow> v \<noteq> JUndefined \<Longrightarrow> \<exists>s. t = JStr s"
  by (cases v)
     (auto simp: metadata_value_def typeof_object_def split: sum.splits option.splits
           dest: json_array_Some json_object_Some)

lemma stamp_kept:
  assumes "logEntry up now lvl info = Inr e" and "\<not> supplies info k"
    and "k = ''service'' \<and> t = ''n8n-comprehensive'' \<or> k = ''logger'' \<and> t = ''winston''"
  shows "(k, t) \<in> set (attributes (encode nanos e))"
proof -
  from assms(1) obtain m where m: "extractMetadata info = Inr m"
    and e: "map_of e =
           map_of [(''p_timestamp'', JStr now), (''level'', JStr (toUpperCase up lvl)),
                   (''message'', get_prop info ''message''),
                   (''service'', JStr ''n8n-comprehensive''), (''logger'', JStr ''winston'')]
             ++ map_of m" by (rule logEntry_Inr)
  from assms(2) have "\<forall>v. (k, v) \<in> set (own_entries info) \<longrightarrow> \<not> kept_field (k, v)"
    by (auto simp: supplies_def set_own_entries)
  with m have "map_of m k = None"
    unfolding extractMetadata_def by (drule_tac fold_metadata_other) simp_all
  with assms(3) e have "map_of e k = Some (JStr t)" by (auto simp: map_add_def)
  then have "(k, JStr t) \<in> set e" by (rule map_of_SomeD)
  moreover have "k \<notin> set [''p_timestamp'', ''level'', ''message'']" using assms(3) by auto
  ultimately have "(k, String (JStr t)) \<in> set (record_attributes e)"
    by (rule attribute_of_entry)
  then show ?thesis by (simp add: encode_def)
qed

lemma sample_entries:
  "logEntry ascii_only ''t'' ''info'' plain_info = Inr (plain_entry ''t'')"
  "logEntry ascii_only ''t'' ''info'' null_field_info = Inr (plain_entry ''t'')"
  "logEntry ascii_only ''t'' ''info'' null_service_info = Inr (plain_entry ''t'')"
  "logEntry ascii_only ''t'' ''info'' service_info = Inr billing_entry"
  "logEntry ascii_only ''t'' ''info'' timing_info = Inr timing_entry"
  by code_simp+

text \<open>
  C2. The event with level \<open>ERROR\<close>, message \<open>boom\<close> and the fields \<open>code: 42\<close> and
  \<open>nested: {a: 1}\<close> (and a \<open>timestamp\<close> of any value) is accepted with \<open>ERROR\<close> as its level, and
  the record encoded from its entry has severity text \<open>ERROR\<close>, body \<open>boom\<close>, the attribute
  \<open>code\<close> with the string \<open>42\<close>, the attribute \<open>nested\<close> with the JSON text of the object, and no
  attribute keyed \<open>level\<close>, \<open>message\<close> or \<open>timestamp\<close>. Its attributes are the two stamps of
  the transport and these two fields.
\<close>

theorem encode_boom_event:
  \<open>\<exists>e. logEntry unicode now ''ERROR'' (boom_info ts) = Inr e
     \<and> get_prop (boom_info ts) ''level'' = JStr ''ERROR''
     \<and> severityText (encode nanos e) = JStr ''ERROR''
     \<and> body_stringValue (encode nanos e) = JStr ''boom''
     \<and> (''code'', ''42'') \<in> set (attributes (encode nanos e))
     \<and> (''nested'', ''{"a":1}'') \<in> set (attributes (encode nanos e))
     \<and> ''level'' \<notin> fst ` set (attributes (encode nanos e))
     \<and> ''message'' \<notin> fst ` set (attributes (encode nanos e))
     \<and> ''timestamp'' \<notin> fst ` set (attributes (encode nanos e))
     \<and> attributes (encode nanos e)
          = [(''service'', ''n8n-comprehensive''), (''logger'', ''winston''),
             (''code'', ''42''), (''nested'', ''{"a":1}'')]\<close>
proof -
  define e where
    \<open>e = [(''p_timestamp'', JStr now), (''level'', JStr ''ERROR''), (''message'', JStr ''boom''),
          (''service'', JStr ''n8n-comprehensive''), (''logger'', JStr ''winston''),
          (''code'', JStr ''42''), (''nested'', JStr ''{"a":1}'')]\<close>
  have r0: "logEntry unicode now ''ERROR'' (boom_info ts) = Inr e"
    unfolding e_def by code_simp
  have r1: "get_prop (boom_info ts) ''level'' = JStr ''ERROR''" by code_simp
  have r2: "severityText (encode nanos e) = JStr ''ERROR''" unfolding e_def by code_simp
  have r3: "body_stringValue (encode nanos e) = JStr ''boom''" unfolding e_def by code_simp
  have r4: "(''code'', ''42'') \<in> set (attributes (encode nanos e))"
    unfolding e_def by code_simp
  have r5: \<open>(''nested'', ''{"a":1}'') \<in> set (attributes (encode nanos e))\<close>
    unfolding e_def by code_simp
  have r6: "''level'' \<notin> fst ` set (attributes (encode nanos e))" unfolding e_def by code_simp
  have r7: "''message'' \<notin> fst ` set (attributes (encode nanos e))" unfolding e_def by code_simp
  have r8: "''timestamp'' \<notin> fst ` set (attributes (encode nanos e))"
    unfolding e_def by code_simp
  have r9: \<open>attributes (encode nanos e)
          = [(''service'', ''n8n-comprehensive''), (''logger'', ''winston''),
             (''code'', ''42''), (''nested'', ''{"a":1}'')]\<close>
    unfolding e_def by code_simp
  show ?thesis by (intro exI [of _ e] conjI r0 r1 r2 r3 r4 r5 r6 r7 r8 r9)
qed

text \<open>
  C3 (as the code has it). Take an event that \<^verbatim>\<open>log\<close> accepts (its keys are distinct) and any
  of its fields. If the key is none of \<open>level\<close>, \<open>message\<close>, \<open>timestamp\<close>, \<open>p_timestamp\<close> and
  \<open>__proto__\<close> and the value is neither \<^verbatim>\<open>null\<close> nor \<^verbatim>\<open>undefined\<close>, the value is converted to
  a string (the JSON text of an object or array, \<^verbatim>\<open>String(value)\<close> otherwise), and the encoded
  record has an attribute with the field's key and that string. If the value is \<^verbatim>\<open>null\<close> or
  \<^verbatim>\<open>undefined\<close>, the record has no attribute under the field's key, unless the key is
  \<open>service\<close> or \<open>logger\<close>, where the stamp of the transport stands.
\<close>

theorem kept_fields_become_string_attributes:
  assumes "logEntry unicode now lvl info = Inr e"
    and "distinct (map fst info)" and "(k, v) \<in> set info"
  shows "(k \<notin> {''level'', ''message'', ''timestamp'', ''p_timestamp'', ''__proto__''}
          \<and> v \<noteq> JNull \<and> v \<noteq> JUndefined
        \<longrightarrow> (\<exists>t. metadata_value v = Inr (JStr t)
                \<and> (k, t) \<in> set (attributes (encode nanos e))))
    \<and> ((v = JNull \<or> v = JUndefined) \<and> k \<notin> {''service'', ''logger''}
        \<longrightarrow> k \<notin> fst ` set (attributes (encode nanos e)))"
proof -
  from assms(1) obtain m where m: "extractMetadata info = Inr m"
    and e: "map_of e =
           map_of [(''p_timestamp'', JStr now), (''level'', JStr (toUpperCase unicode lvl)),
                   (''message'', get_prop info ''message''),
                   (''service'', JStr ''n8n-comprehensive''), (''logger'', JStr ''winston'')]
             ++ map_of m" by (rule logEntry_Inr)
  from m have f: "fold metadata_step (own_entries info) (Inr []) = Inr m"
    by (simp add: extractMetadata_def)
  from assms(2,3) have d: "distinct (map fst (own_entries info))"
    and i: "(k, v) \<in> set (own_entries info)"
    by (simp_all add: distinct_own_entries set_own_entries)
  have kept: "\<exists>t. metadata_value v = Inr (JStr t) \<and> (k, t) \<in> set (attributes (encode nanos e))"
    if k: "k \<notin> {''level'', ''message'', ''timestamp'', ''p_timestamp'', ''__proto__''}"
      and v: "v \<noteq> JNull" "v \<noteq> JUndefined"
  proof -
    from k v have "kept_field (k, v)" by (simp add: kept_field_def)
    from fold_metadata_kept [OF f d i this] obtain t0
      where t0: "metadata_value v = Inr t0" "map_of m k = Some t0" by blast
    from metadata_value_string [OF t0(1) v(2)] obtain t where t: "t0 = JStr t" by blast
    from t0 t e have "map_of e k = Some (JStr t)" by (simp add: map_add_def)
    then have "(k, JStr t) \<in> set e" by (rule map_of_SomeD)
    moreover have "k \<notin> set [''p_timestamp'', ''level'', ''message'']" using k by simp
    ultimately have "(k, String (JStr t)) \<in> set (record_attributes e)"
      by (rule attribute_of_entry)
    with t0 t show ?thesis by (auto simp: encode_def)
  qed
  have dropped: "k \<notin> fst ` set (attributes (encode nanos e))"
    if v: "v = JNull \<or> v = JUndefined" and k: "k \<notin> {''service'', ''logger''}"
  proof
    assume "k \<in> fst ` set (attributes (encode nanos e))"
    then have a: "k \<in> fst ` set (record_attributes e)" by (simp add: encode_def)
    then have in_e: "map_of e k \<noteq> None" by (rule attribute_key_in_entry)
    from a have no: "k \<notin> set [''p_timestamp'', ''level'', ''message'']"
      by (auto simp: record_attributes_def)
    have "\<forall>w. (k, w) \<in> set (own_entries info) \<longrightarrow> \<not> kept_field (k, w)"
    proof (intro allI impI)
      fix w
      assume "(k, w) \<in> set (own_entries info)"
      with d i have "w = v" by (meson eq_key_imp_eq_value)
      with v show "\<not> kept_field (k, w)" by (auto simp: kept_field_def)
    qed
    from fold_metadata_other [OF f this] have "map_of m k = None" by simp
    with e in_e no k show False by (auto simp: map_add_def split: if_splits)
  qed
  show ?thesis
  proof (intro conjI impI)
    assume "k \<notin> {''level'', ''message'', ''timestamp'', ''p_timestamp'', ''__proto__''}
              \<and> v \<noteq> JNull \<and> v \<noteq> JUndefined"
    then show "\<exists>t. metadata_value v = Inr (JStr t)
                 \<and> (k, t) \<in> set (attributes (encode nanos e))"
      by (elim conjE) (rule kept)
  next
    assume "(v = JNull \<or> v = JUndefined) \<and> k \<notin> {''service'', ''logger''}"
    then show "k \<notin> fst ` set (attributes (encode nanos e))"
      by (elim conjE) (rule dropped)
  qed
qed

theorem kept_fields_become_string_attributes_witness:
  \<open>logEntry ascii_only ''t'' ''info'' timing_info = Inr timing_entry
   \<and> distinct (map fst timing_info)
   \<and> (''bytes'', JNum ''1152921504606847000'') \<in> set timing_info
   \<and> ''bytes'' \<notin> {''level'', ''message'', ''timestamp'', ''p_timestamp'', ''__proto__''}
   \<and> JNum ''1152921504606847000'' \<noteq> JNull \<and> JNum ''1152921504606847000'' \<noteq> JUndefined
   \<and> (\<exists>t. metadata_value (JNum ''1152921504606847000'') = Inr (JStr t)
         \<and> (''bytes'', t) \<in> set (attributes (encode zero_nanos timing_entry)))
   \<and> logEntry ascii_only ''t'' ''info'' null_field_info = Inr (plain_entry ''t'')
   \<and> distinct (map fst null_field_info)
   \<and> (''user'', JNull) \<in> set null_field_info
   \<and> ''user'' \<notin> {''service'', ''logger''}
   \<and> ''user'' \<notin> fst ` set (attributes (encode zero_nanos (plain_entry ''t'')))\<close>
proof -
  note a1 = sample_entries(5)
  have a2: "distinct (map fst timing_info)" by (simp add: timing_info_def)
  have a3: "(''bytes'', JNum ''1152921504606847000'') \<in> set timing_info"
    by (simp add: timing_info_def)
  have a4: "''bytes'' \<notin> {''level'', ''message'', ''timestamp'', ''p_timestamp'', ''__proto__''}"
    by simp
  have a5: "JNum ''1152921504606847000'' \<noteq> JNull" and a6: "JNum ''1152921504606847000'' \<noteq> JUndefined"
    by simp_all
  from a4 a5 a6 have p: "''bytes'' \<notin> {''level'', ''message'', ''timestamp'', ''p_timestamp'', ''__proto__''}
      \<and> JNum ''1152921504606847000'' \<noteq> JNull \<and> JNum ''1152921504606847000'' \<noteq> JUndefined"
    by (intro conjI)
  have q: "\<exists>t. metadata_value (JNum ''1152921504606847000'') = Inr (JStr t)
         \<and> (''bytes'', t) \<in> set (attributes (encode zero_nanos timing_entry))"
    by (rule mp [OF conjunct1 [OF kept_fields_become_string_attributes [OF a1 a2 a3]] p])
  note b1 = sample_entries(2)
  have b2: "distinct (map fst null_field_info)" by (simp add: null_field_info_def)
  have b3: "(''user'', JNull) \<in> set null_field_info" by (simp add: null_field_info_def)
  have b4: "''user'' \<notin> {''service'', ''logger''}" by simp
  have p': "(JNull = JNull \<or> JNull = JUndefined) \<and> ''user'' \<notin> {''service'', ''logger''}"
    using b4 by simp
  have q': "''user'' \<notin> fst ` set (attributes (encode zero_nanos (plain_entry ''t'')))"
    by (rule mp [OF conjunct2 [OF kept_fields_become_string_attributes [OF b1 b2 b3]] p'])
  from a1 a2 a3 a4 a5 a6 q b1 b2 b3 b4 q' show ?thesis by - (intro conjI; assumption)
qed

text \<open>
  C3 as stated fails: a field whose value is \<^verbatim>\<open>null\<close> is left out of the payload although
  its key, here \<open>user\<close>, is not reserved.
\<close>

theorem null_field_is_dropped:
  "logEntry ascii_only ''t'' ''info'' null_field_info = Inr (plain_entry ''t'')
   \<and> (''user'', JNull) \<in> set null_field_info
   \<and> ''user'' \<notin> fst ` set (attributes (encode zero_nanos (plain_entry ''t'')))"
  by code_simp

text \<open>
  C10 (as the code has it). Take the entry of an accepted event. Unless the event itself
  supplies a field \<open>service\<close> that \<^verbatim>\<open>extractMetadata\<close> keeps, the encoded record has the
  attribute \<open>service\<close> with the string \<open>n8n-comprehensive\<close>; unless it supplies a field
  \<open>logger\<close>, the record has the attribute \<open>logger\<close> with the string \<open>winston\<close>.
\<close>

theorem stamps_unless_supplied:
  assumes "logEntry unicode now lvl info = Inr e"
  shows "(\<not> supplies info ''service''
      \<longrightarrow> (''service'', ''n8n-comprehensive'') \<in> set (attributes (encode nanos e)))
   \<and> (\<not> supplies info ''logger''
      \<longrightarrow> (''logger'', ''winston'') \<in> set (attributes (encode nanos e)))"
  using assms by (simp add: stamp_kept)

theorem stamps_unless_supplied_witness:
  "logEntry ascii_only ''t'' ''info'' null_service_info = Inr (plain_entry ''t'')
   \<and> \<not> supplies null_service_info ''service'' \<and> \<not> supplies null_service_info ''logger''
   \<and> (''service'', ''n8n-comprehensive'')
        \<in> set (attributes (encode zero_nanos (plain_entry ''t'')))
   \<and> (''logger'', ''winston'') \<in> set (attributes (encode zero_nanos (plain_entry ''t'')))"
proof -
  note h0 = sample_entries(3)
  have h1: "\<not> supplies null_service_info ''service''"
    and h2: "\<not> supplies null_service_info ''logger''"
    by (simp_all add: supplies_def null_service_info_def kept_field_def)
  note T = stamps_unless_supplied [OF h0, of zero_nanos]
  have q1: "(''service'', ''n8n-comprehensive'')
        \<in> set (attributes (encode zero_nanos (plain_entry ''t'')))"
    by (rule mp [OF conjunct1 [OF T] h1])
  have q2: "(''logger'', ''winston'') \<in> set (attributes (encode zero_nanos (plain_entry ''t'')))"
    by (rule mp [OF conjunct2 [OF T] h2])
  from h0 h1 h2 q1 q2 show ?thesis by - (intro conjI; assumption)
qed

text \<open>
  C10 as stated fails: the fields of the event are spread over the stamps, so an event that
  carries \<open>service: "billing"\<close> is encoded with that value and without the stamp.
\<close>

theorem caller_service_replaces_stamp:
  "logEntry ascii_only ''t'' ''info'' service_info = Inr billing_entry
   \<and> (''service'', ''n8n-comprehensive'') \<notin> set (attributes (encode zero_nanos billing_entry))
   \<and> (''service'', ''billing'') \<in> set (attributes (encode zero_nanos billing_entry))"
  by code_simp

section \<open>Batching and shutdown\<close>

lemma log_accepts:
  "get_prop info ''level'' = JStr lvl \<Longrightarrow> logEntry up now lvl info = Inr entry \<Longrightarrow>
   log up now info cb s =
     Inr ((if batchSize s \<le> int (length (batch s)) + 1
           then s\<lparr>batch := [], sent := sent s @ [batch s @ [entry]],
                  pending := pending s @ [batch s @ [entry]]\<rparr>
           else s\<lparr>batch := batch s @ [entry]\<rparr>)
          \<lparr>immediates := immediates s + (if cb then 1 else 0)\<rparr>)"
  by (simp add: log_def Let_def flush_nonempty)


lemma step_Log_cases:
  obtains (flushed) entry where "accepted up (Log now info cb) = [entry]"
      and "step up (Log now info cb) s
             = s\<lparr>batch := [], sent := sent s @ [batch s @ [entry]],
                  pending := pending s @ [batch s @ [entry]],
                  immediates := immediates s + (if cb then 1 else 0)\<rparr>"
    | (held) entry where "accepted up (Log now info cb) = [entry]"
      and "step up (Log now info cb) s
             = s\<lparr>batch := batch s @ [entry],
                  immediates := immediates s + (if cb then 1 else 0)\<rparr>"
    | (thrown) "accepted up (Log now info cb) = []" and "step up (Log now info cb) s = s"
proof (cases "get_prop info ''level''")
  case (JStr lvl)
  show ?thesis
  proof (cases "logEntry up now lvl info")
    case (Inl err)
    with JStr have "accepted up (Log now info cb) = []" "step up (Log now info cb) s = s"
      by (simp_all add: accepted_def log_def)
    then show ?thesis by (rule thrown)
  next
    case (Inr entry)
    with JStr have a: "accepted up (Log now info cb) = [entry]" by (simp add: accepted_def)
    show ?thesis
    proof (cases "batchSize s \<le> int (length (batch s)) + 1")
      case True
      with log_accepts [OF JStr Inr, of cb s]
      have "step up (Log now info cb) s
             = s\<lparr>batch := [], sent := sent s @ [batch s @ [entry]],
                  pending := pending s @ [batch s @ [entry]],
                  immediates := immediates s + (if cb then 1 else 0)\<rparr>" by simp
      with a show ?thesis by (rule flushed)
    next
      case False
      with log_accepts [OF JStr Inr, of cb s]
      have "step up (Log now info cb) s
             = s\<lparr>batch := batch s @ [entry],
                  immediates := immediates s + (if cb then 1 else 0)\<rparr>" by simp
      with a show ?thesis by (rule held)
    qed
  qed
next
  case JUndefined
  then have "accepted up (Log now info cb) = []" "step up (Log now info cb) s = s"
    by (simp_all add: accepted_def log_def)
  then show ?thesis by (rule thrown)
next
  case JNull
  then have "accepted up (Log now info cb) = []" "step up (Log now info cb) s = s"
    by (simp_all add: accepted_def log_def)
  then show ?thesis by (rule thrown)
next
  case (JBool b)
  then have "accepted up (Log now info cb) = []" "step up (Log now info cb) s = s"
    by (simp_all add: accepted_def log_def)
  then show ?thesis by (rule thrown)
next
  case (JNum n)
  then have "accepted up (Log now info cb) = []" "step up (Log now info cb) s = s"
    by (simp_all add: accepted_def log_def)
  then show ?thesis by (rule thrown)
next
  case (JBigInt n)
  then have "accepted up (Log now info cb) = []" "step up (Log now info cb) s = s"
    by (simp_all add: accepted_def log_def)
  then show ?thesis by (rule thrown)
next
  case (JArr xs)
  then have "accepted up (Log now info cb) = []" "step up (Log now info cb) s = s"
    by (simp_all add: accepted_def log_def)
  then show ?thesis by (rule thrown)
next
  case (JObj ps)
  then have "accepted up (Log now info cb) = []" "step up (Log now info cb) s = s"
    by (simp_all add: accepted_def log_def)
  then show ?thesis by (rule thrown)
next
  case JCyclic
  then have "accepted up (Log now info cb) = []" "step up (Log now info cb) s = s"
    by (simp_all add: accepted_def log_def)
  then show ?thesis by (rule thrown)
qed

lemma step_drain:
  assumes "batch s = rq @ fr"
  shows "if length (sent (step up e s)) > length (sent s)
         then batch (step up e s) = [] \<and> sent (step up e s) = sent s @ [rq @ fr @ accepted up e]
         else \<exists>gs. set gs \<subseteq> set (failed_now e s)
                \<and> batch (step up e s) = concat (map (slice (- 3)) gs) @ rq @ fr @ accepted up e"
proof (cases e)
  case (Log now info cb)
  show ?thesis
  proof (cases rule: step_Log_cases [of up now info cb s])
    case (flushed entry)
    then show ?thesis using assms Log by simp
  next
    case (held entry)
    then show ?thesis using assms Log
      by (auto simp: failed_now_def intro: exI [of _ "[]"])
  next
    case thrown
    then show ?thesis using assms Log
      by (auto simp: failed_now_def intro: exI [of _ "[]"])
  qed
next
  case Tick
  then show ?thesis using assms
    by (cases "batch s = []")
       (auto simp: timer_callback_def flush_nonempty flush_empty accepted_def failed_now_def
             intro: exI [of _ "[]"])
next
  case (Settled k out)
  show ?thesis
  proof (cases "k < length (pending s) \<and> \<not> resolves out \<and> retryCount s < maxRetries s")
    case True
    then show ?thesis using assms Settled
      by (auto simp: settle_def flush_settled_def accepted_def failed_now_def
               intro: exI [of _ "[pending s ! k]"])
  next
    case False
    then show ?thesis using assms Settled
      by (auto simp: settle_def flush_settled_def accepted_def failed_now_def
               intro: exI [of _ "[]"])
  qed
next
  case Close
  then show ?thesis using assms
    by (cases "batch s = []")
       (auto simp: close_def flush_nonempty flush_empty accepted_def failed_now_def Let_def
             intro: exI [of _ "[]"])
qed

lemma step_trace:
  assumes "set (pending s) \<subseteq> set (sent s)"
  shows "set (pending (step up e s)) \<subseteq> set (sent (step up e s))
    \<and> set (sent s) \<subseteq> set (sent (step up e s))
    \<and> set (failed_now e s) \<subseteq> set (sent s)"
proof (cases e)
  case (Log now info cb)
  show ?thesis
  proof (cases rule: step_Log_cases [of up now info cb s])
    case (flushed entry)
    then show ?thesis using assms Log by (auto simp: failed_now_def)
  next
    case (held entry)
    then show ?thesis using assms Log by (auto simp: failed_now_def)
  next
    case thrown
    then show ?thesis using assms Log by (auto simp: failed_now_def)
  qed
next
  case Tick
  then show ?thesis using assms
    by (cases "batch s = []")
       (auto simp: timer_callback_def flush_nonempty flush_empty failed_now_def)
next
  case (Settled k out)
  have "set (take k (pending s) @ drop (Suc k) (pending s)) \<subseteq> set (pending s)"
    using set_take_subset [of k "pending s"] set_drop_subset [of "Suc k" "pending s"] by auto
  then show ?thesis using assms Settled
    by (auto simp: settle_def flush_settled_def failed_now_def)
next
  case Close
  then show ?thesis using assms
    by (cases "batch s = []")
       (auto simp: close_def flush_nonempty flush_empty failed_now_def Let_def)
qed

lemma requeued_from_more:
  "requeued_from fs rq \<Longrightarrow> set gs \<subseteq> set fs' \<Longrightarrow>
   requeued_from (fs @ fs') (concat (map (slice (- 3)) gs) @ rq)"
  unfolding requeued_from_def
proof -
  assume "\<exists>hs. set hs \<subseteq> set fs \<and> rq = concat (map (slice (- 3)) hs)" and g: "set gs \<subseteq> set fs'"
  then obtain hs where hs: "set hs \<subseteq> set fs" "rq = concat (map (slice (- 3)) hs)" by blast
  with g have "set (gs @ hs) \<subseteq> set (fs @ fs')
      \<and> concat (map (slice (- 3)) gs) @ rq = concat (map (slice (- 3)) (gs @ hs))" by auto
  then show "\<exists>hs. set hs \<subseteq> set (fs @ fs')
      \<and> concat (map (slice (- 3)) gs) @ rq = concat (map (slice (- 3)) hs)" by blast
qed

lemma requeued_from_none: "requeued_from fs []"
  unfolding requeued_from_def by (rule exI [of _ "[]"]) simp

lemma observe_well:
  assumes "well_observed x"
  shows "well_observed (observe up e x)"
proof -
  from assms obtain rq where rq: "requeued_from (obs_failed x) rq"
    and b: "batch (obs_state x) = rq @ obs_fresh x"
    and p: "set (pending (obs_state x)) \<subseteq> set (sent (obs_state x))"
    and f: "set (obs_failed x) \<subseteq> set (sent (obs_state x))"
    by (auto simp: well_observed_def)
  let ?s' = "step up e (obs_state x)"
  from step_trace [OF p, of up e]
  have t: "set (pending ?s') \<subseteq> set (sent ?s')" "set (sent (obs_state x)) \<subseteq> set (sent ?s')"
    "set (failed_now e (obs_state x)) \<subseteq> set (sent (obs_state x))" by simp_all
  have "\<exists>rq'. requeued_from (obs_failed (observe up e x)) rq'
          \<and> batch (obs_state (observe up e x)) = rq' @ obs_fresh (observe up e x)"
  proof (cases "length (sent ?s') > length (sent (obs_state x))")
    case True
    with step_drain [OF b, of up e] have "batch ?s' = []" by simp
    with True show ?thesis
      by (intro exI [of _ "[]"]) (simp add: observe_def Let_def requeued_from_none)
  next
    case False
    with step_drain [OF b, of up e] obtain gs
      where gs: "set gs \<subseteq> set (failed_now e (obs_state x))"
        "batch ?s' = concat (map (slice (- 3)) gs) @ rq @ obs_fresh x @ accepted up e"
      by auto
    from requeued_from_more [OF rq gs(1)] gs(2) False show ?thesis
      by (intro exI [of _ "concat (map (slice (- 3)) gs) @ rq"])
         (simp add: observe_def Let_def)
  qed
  moreover from t f have "set (obs_failed (observe up e x)) \<subseteq> set (sent ?s')"
    by (auto simp: observe_def Let_def)
  moreover from t have "set (pending (obs_state (observe up e x)))
      \<subseteq> set (sent (obs_state (observe up e x)))"
    by (simp add: observe_def Let_def)
  ultimately show ?thesis by (simp add: well_observed_def observe_def Let_def)
qed

lemma observe_run_well: "well_observed x \<Longrightarrow> well_observed (fold (observe up) es x)"
  by (induction es arbitrary: x) (simp_all add: observe_well)

lemma new_transport_batch: "batch (new_transport opts) = []"
  by (simp add: new_transport_def startBatchProcessor_def Let_def)

lemma new_transport_well:
  "well_observed \<lparr>obs_state = new_transport opts, obs_fresh = [], obs_failed = []\<rparr>"
  by (simp add: well_observed_def requeued_from_none new_transport_def startBatchProcessor_def
        Let_def)

lemma step_keeps_timer_off: "\<not> timer s \<Longrightarrow> \<not> timer (step up e s)"
proof (cases e)
  case (Log now info cb)
  assume off: "\<not> timer s"
  show ?thesis
  proof (cases rule: step_Log_cases [of up now info cb s])
    case (flushed entry)
    then show ?thesis using off Log by simp
  next
    case (held entry)
    then show ?thesis using off Log by simp
  next
    case thrown
    then show ?thesis using off Log by simp
  qed
next
  case Tick
  assume "\<not> timer s"
  then show ?thesis using Tick by simp
next
  case (Settled k out)
  assume "\<not> timer s"
  then show ?thesis using Settled by (simp add: settle_def flush_settled_def Let_def)
next
  case Close
  assume "\<not> timer s"
  then show ?thesis using Close
    by (simp add: close_def flush_def sendToParseable_def Let_def)
qed

lemma run_keeps_timer_off: "\<not> timer s \<Longrightarrow> \<not> timer (run up es s)"
  unfolding run_def by (induction es arbitrary: s) (simp_all add: step_keeps_timer_off)

lemma timer_close: "\<not> timer (close s)"
  by (simp add: close_def flush_def sendToParseable_def Let_def)

lemma ten_in_flight_fields:
  "obs_fresh (observe_run ascii_only ten_in_flight (new_transport wide_options))
     = map plain_entry
         [''b1'', ''b2'', ''b3'', ''b4'', ''b5'', ''b6'', ''b7'', ''b8'', ''b9'', ''b10'']"
  "length (sent (obs_state (observe_run ascii_only ten_in_flight (new_transport wide_options))))
     < length (sent (step ascii_only Tick
         (obs_state (observe_run ascii_only ten_in_flight (new_transport wide_options)))))"
  "obs_failed (observe_run ascii_only ten_in_flight (new_transport wide_options))
     = [map plain_entry [''a1'', ''a2'', ''a3'', ''a4'', ''a5'']]"
  "sent (step ascii_only Tick
      (obs_state (observe_run ascii_only ten_in_flight (new_transport wide_options))))
     = [map plain_entry [''a1'', ''a2'', ''a3'', ''a4'', ''a5''],
        map plain_entry
         [''a3'', ''a4'', ''a5'',
          ''b1'', ''b2'', ''b3'', ''b4'', ''b5'', ''b6'', ''b7'', ''b8'', ''b9'', ''b10'']]"
  by code_simp+

text \<open>
  C4 (as the code has it). A flush of a non-empty batch hands the whole batch to
  \<^verbatim>\<open>sendToParseable\<close> and leaves the shared batch empty while that send is pending. In every
  run from a new transport, with \<^verbatim>\<open>log\<close> calls, timer ticks, settling sends and \<^verbatim>\<open>close\<close>
  calls in any order, the shared batch is made of two parts: first groups of the last three
  entries of snapshots whose send has failed (and every such snapshot was sent), then the
  entries accepted since the most recent drain, in the order of their acceptance. And
  whichever step drains the batch next, the snapshot it sends is made of such groups followed
  by exactly these entries, and by the entry of that step if it is a \<^verbatim>\<open>log\<close> call.
\<close>

theorem fresh_entries_reach_next_snapshot:
  "(batch s \<noteq> [] \<longrightarrow> batch (flush s) = [] \<and> sent (flush s) = sent s @ [batch s]
       \<and> pending (flush s) = pending s @ [batch s])
   \<and> (\<exists>rq. requeued_from (obs_failed (observe_run unicode es (new_transport opts))) rq
         \<and> batch (obs_state (observe_run unicode es (new_transport opts)))
             = rq @ obs_fresh (observe_run unicode es (new_transport opts)))
   \<and> set (obs_failed (observe_run unicode es (new_transport opts)))
        \<subseteq> set (sent (obs_state (observe_run unicode es (new_transport opts))))
   \<and> (length (sent (step unicode e (obs_state (observe_run unicode es (new_transport opts)))))
         > length (sent (obs_state (observe_run unicode es (new_transport opts))))
      \<longrightarrow> (\<exists>rq. requeued_from (obs_failed (observe_run unicode es (new_transport opts))) rq
            \<and> sent (step unicode e (obs_state (observe_run unicode es (new_transport opts))))
                = sent (obs_state (observe_run unicode es (new_transport opts)))
                    @ [rq @ obs_fresh (observe_run unicode es (new_transport opts))
                         @ accepted unicode e]))"
proof -
  let ?x = "observe_run unicode es (new_transport opts)"
  have "well_observed ?x"
    unfolding observe_run_def by (rule observe_run_well) (rule new_transport_well)
  then obtain rq where rq: "requeued_from (obs_failed ?x) rq"
    and b: "batch (obs_state ?x) = rq @ obs_fresh ?x"
    and f: "set (obs_failed ?x) \<subseteq> set (sent (obs_state ?x))"
    by (auto simp: well_observed_def)
  from step_drain [OF b, of unicode e] rq
  have "length (sent (step unicode e (obs_state ?x))) > length (sent (obs_state ?x))
        \<longrightarrow> (\<exists>rq. requeued_from (obs_failed ?x) rq
              \<and> sent (step unicode e (obs_state ?x))
                  = sent (obs_state ?x) @ [rq @ obs_fresh ?x @ accepted unicode e])"
    by (auto split: if_splits)
  moreover from rq b have "\<exists>rq. requeued_from (obs_failed ?x) rq
      \<and> batch (obs_state ?x) = rq @ obs_fresh ?x" by blast
  ultimately show ?thesis using f by (simp add: flush_nonempty)
qed

theorem fresh_entries_reach_next_snapshot_witness:
  "batch one_logged \<noteq> []
   \<and> length (sent (obs_state (observe_run ascii_only ten_in_flight (new_transport wide_options))))
       < length (sent (step ascii_only Tick
           (obs_state (observe_run ascii_only ten_in_flight (new_transport wide_options)))))
   \<and> batch (flush one_logged) = []
   \<and> sent (flush one_logged) = sent one_logged @ [batch one_logged]
   \<and> (\<exists>rq. requeued_from
            (obs_failed (observe_run ascii_only ten_in_flight (new_transport wide_options))) rq
        \<and> sent (step ascii_only Tick
              (obs_state (observe_run ascii_only ten_in_flight (new_transport wide_options))))
            = sent (obs_state (observe_run ascii_only ten_in_flight (new_transport wide_options)))
                @ [rq @ obs_fresh (observe_run ascii_only ten_in_flight (new_transport wide_options))
                     @ accepted ascii_only Tick])"
proof -
  note h1 = one_logged_fields(3)
  note h2 = ten_in_flight_fields(2)
  note T = fresh_entries_reach_next_snapshot
    [of one_logged ascii_only ten_in_flight wide_options Tick]
  from T h1 have a: "batch (flush one_logged) = []"
    and b: "sent (flush one_logged) = sent one_logged @ [batch one_logged]" by blast+
  from T h2 have c: "\<exists>rq. requeued_from
            (obs_failed (observe_run ascii_only ten_in_flight (new_transport wide_options))) rq
        \<and> sent (step ascii_only Tick
              (obs_state (observe_run ascii_only ten_in_flight (new_transport wide_options))))
            = sent (obs_state (observe_run ascii_only ten_in_flight (new_transport wide_options)))
                @ [rq @ obs_fresh (observe_run ascii_only ten_in_flight (new_transport wide_options))
                     @ accepted ascii_only Tick]" by blast
  from h1 h2 a b c show ?thesis by - (intro conjI; assumption)
qed

text \<open>
  C4 as stated fails, in two ways. After one event is logged, drained by a timer tick and its
  send has failed, no event has been accepted since the drain, but the shared batch holds the
  entry that was put back: it does not hold only events accepted after the most recent drain.
  And an event accepted while a send is pending can be sent twice: \<open>b\<close> is logged while the
  send of \<open>a\<close> is pending, the send of \<open>b\<close> fails, and \<open>b\<close> is in two later snapshots.
\<close>

theorem requeued_entry_is_not_fresh:
  "obs_fresh (observe_run ascii_only requeue_run (new_transport no_options)) = []
   \<and> batch (obs_state (observe_run ascii_only requeue_run (new_transport no_options)))
       = [plain_entry ''t'']
   \<and> \<not> set (batch (obs_state (observe_run ascii_only requeue_run (new_transport no_options))))
         \<subseteq> set (obs_fresh (observe_run ascii_only requeue_run (new_transport no_options)))
   \<and> pending (run ascii_only [Log ''a'' plain_info False, Tick] (new_transport no_options))
       = [[plain_entry ''a'']]
   \<and> sent (run ascii_only resend_run (new_transport no_options))
       = [[plain_entry ''a''], [plain_entry ''b''], [plain_entry ''b'']]"
  by code_simp






text \<open>
  C9. After \<^verbatim>\<open>close\<close> the interval is no longer scheduled. If the batch was not empty,
  \<^verbatim>\<open>close\<close> has made exactly one call of \<^verbatim>\<open>sendToParseable\<close>, with the whole batch, and the
  shared batch is empty; if the batch was empty, no call was made. Whatever happens after
  \<^verbatim>\<open>close\<close>, the interval stays unscheduled and a tick changes nothing.
\<close>

theorem close_stops_timer_and_flushes_once:
  "\<not> timer (close s)
   \<and> (batch s \<noteq> [] \<longrightarrow> sent (close s) = sent s @ [batch s]
         \<and> pending (close s) = pending s @ [batch s] \<and> batch (close s) = [])
   \<and> (batch s = [] \<longrightarrow> sent (close s) = sent s \<and> pending (close s) = pending s)
   \<and> \<not> timer (run unicode es (close s))
   \<and> step unicode Tick (run unicode es (close s)) = run unicode es (close s)"
proof -
  have "\<not> timer (run unicode es (close s))" by (rule run_keeps_timer_off) (rule timer_close)
  then show ?thesis
    by (cases "batch s = []") (simp_all add: close_def flush_nonempty flush_empty Let_def)
qed

theorem close_stops_timer_and_flushes_once_witness:
  "batch one_logged \<noteq> [] \<and> batch (new_transport no_options) = []
   \<and> sent (close one_logged) = sent one_logged @ [batch one_logged]
   \<and> batch (close one_logged) = []
   \<and> sent (close (new_transport no_options)) = sent (new_transport no_options)
   \<and> \<not> timer (run ascii_only (Tick # logs_at [''a1'', ''a2'']) (close one_logged))"
proof -
  note h1 = one_logged_fields(3)
  note h2 = new_transport_batch [of no_options]
  note A = close_stops_timer_and_flushes_once
    [of one_logged ascii_only "Tick # logs_at [''a1'', ''a2'']"]
  note B = close_stops_timer_and_flushes_once [of "new_transport no_options" ascii_only "[]"]
  from A h1 have a: "sent (close one_logged) = sent one_logged @ [batch one_logged]"
    and b: "batch (close one_logged) = []"
    and d: "\<not> timer (run ascii_only (Tick # logs_at [''a1'', ''a2'']) (close one_logged))"
    by blast+
  from B h2 have c: "sent (close (new_transport no_options)) = sent (new_transport no_options)"
    by blast
  from h1 h2 a b c d show ?thesis by - (intro conjI; assumption)
qed

end
